theory Spec2Isabelle
  imports Complex_Main
begin

section \<open>The topology planner of \<^verbatim>\<open>app.py\<close>\<close>

text \<open>
  The planner is the function \<^verbatim>\<open>generate_topology\<close> together with the three lines of
  the script that aggregate its result (\<^verbatim>\<open>num_ports\<close> and \<^verbatim>\<open>port_counts\<close>).
  Python integers are unbounded, so every number of \<^verbatim>\<open>generate_topology\<close> is an \<open>int\<close>.
  The columns of the usage table are pandas columns: their integers have 64 bits and
  their quotients are binary floating-point numbers.
\<close>

subsection \<open>Ranges and decimal strings\<close>

text \<open>\<^verbatim>\<open>range(n)\<close>: the integers \<open>0, 1, \<dots>, n - 1\<close>; empty when \<open>n \<le> 0\<close>.\<close>

definition range_up :: "int \<Rightarrow> int list" where
  "range_up n = map int [0..<nat n]"

text \<open>\<^verbatim>\<open>range(a, -1, -1)\<close>: the integers \<open>a, a - 1, \<dots>, 0\<close>; empty when \<open>a < 0\<close>.\<close>

definition range_down :: "int \<Rightarrow> int list" where
  "range_down a = map (\<lambda>i. a - int i) [0..<nat (a + 1)]"

text \<open>\<^verbatim>\<open>str(n)\<close> on an integer, as the f-string of \<^verbatim>\<open>panel_id\<close> formats it.\<close>

fun digits :: "nat \<Rightarrow> string" where
  "digits n = (if n < 10 then [char_of (48 + n)] else digits (n div 10) @ [char_of (48 + n mod 10)])"

declare digits.simps [simp del]

definition str :: "int \<Rightarrow> string" where
  "str i = (if i < 0 then CHR ''-'' # digits (nat (- i)) else digits (nat i))"

subsection \<open>The rows of the result and the state of the loop\<close>

text \<open>
  One row per panel: the dictionary with the keys \<^verbatim>\<open>x\<close>, \<^verbatim>\<open>y\<close>, \<^verbatim>\<open>port\<close> and
  \<^verbatim>\<open>panel_id\<close> that the loop appends to \<^verbatim>\<open>topology_data\<close>.
\<close>

record panel =
  panel_x :: int
  panel_y :: int
  port :: int
  panel_id :: string

record planner =
  current_port :: int
  current_port_pixels :: int
  topology_data :: "panel list"

text \<open>The direction of a column: even columns go up, odd columns go down.\<close>

definition y_range :: "int \<Rightarrow> int \<Rightarrow> int list" where
  "y_range panels_h x = (if x mod 2 = 0 then range_up panels_h else range_down (panels_h - 1))"

text \<open>
  The body of the inner loop: the capacity check, which may advance the port, then the
  append of the row, then the addition of the panel's pixels to the running load.
\<close>

definition check_capacity :: "int \<Rightarrow> int \<Rightarrow> planner \<Rightarrow> planner" where
  "check_capacity panel_pixels max_pixels s =
     (if current_port_pixels s + panel_pixels > max_pixels
      then s\<lparr>current_port := current_port s + 1, current_port_pixels := 0\<rparr>
      else s)"

definition assign_panel :: "int \<Rightarrow> int \<Rightarrow> int \<Rightarrow> int \<Rightarrow> planner \<Rightarrow> planner" where
  "assign_panel panel_pixels max_pixels x y s =
     (let s1 = check_capacity panel_pixels max_pixels s;
          s2 = s1\<lparr>topology_data := topology_data s1 @
                  [\<lparr>panel_x = x, panel_y = y, port = current_port s1,
                    panel_id = str (x + 1) @ ''-'' @ str (y + 1)\<rparr>]\<rparr>
      in s2\<lparr>current_port_pixels := current_port_pixels s2 + panel_pixels\<rparr>)"

definition column_loop :: "int \<Rightarrow> int \<Rightarrow> int \<Rightarrow> int \<Rightarrow> planner \<Rightarrow> planner" where
  "column_loop panel_pixels max_pixels panels_h x s =
     fold (assign_panel panel_pixels max_pixels x) (y_range panels_h x) s"

definition generate_topology :: "int \<Rightarrow> int \<Rightarrow> int \<Rightarrow> int \<Rightarrow> int \<Rightarrow> panel list" where
  "generate_topology panels_w panels_h panel_res_w panel_res_h max_pixels =
     (let panel_pixels = panel_res_w * panel_res_h;
          start = \<lparr>current_port = 1, current_port_pixels = 0, topology_data = []\<rparr>
      in topology_data
           (fold (column_loop panel_pixels max_pixels panels_h) (range_up panels_w) start))"

subsection \<open>Derived notions used to state and prove the properties\<close>

text \<open>The grid coordinates of the rows, in the order of the result.\<close>

definition coords :: "panel list \<Rightarrow> (int \<times> int) list" where
  "coords df = map (\<lambda>r. (panel_x r, panel_y r)) df"

text \<open>
  The order in which the two nested loops reach the grid cells, and one column of it
  written with integer intervals.
\<close>

definition visit_order :: "int \<Rightarrow> int \<Rightarrow> (int \<times> int) list" where
  "visit_order panels_w panels_h =
     concat (map (\<lambda>x. map (Pair x) (y_range panels_h x)) (range_up panels_w))"

definition column :: "int \<Rightarrow> int \<Rightarrow> (int \<times> int) list" where
  "column h x = map (Pair x) (if x mod 2 = 0 then [0..h - 1] else rev [0..h - 1])"

text \<open>
  Two grid cells are physically adjacent when they differ by exactly one in exactly one
  coordinate.
\<close>

definition adjacent :: "int \<times> int \<Rightarrow> int \<times> int \<Rightarrow> bool" where
  "adjacent a b \<longleftrightarrow>
     (fst a = fst b \<and> \<bar>snd b - snd a\<bar> = 1) \<or> (snd a = snd b \<and> \<bar>fst b - fst a\<bar> = 1)"

text \<open>
  The loop over a flat list of cells, started with port \<open>p\<close> and load \<open>l\<close>: the rows
  it appends, and the port numbers alone (which depend only on the number of cells).
\<close>

definition row :: "int \<Rightarrow> int \<Rightarrow> int \<Rightarrow> panel" where
  "row x y p = \<lparr>panel_x = x, panel_y = y, port = p, panel_id = str (x + 1) @ ''-'' @ str (y + 1)\<rparr>"

fun rows :: "int \<Rightarrow> int \<Rightarrow> int \<Rightarrow> int \<Rightarrow> (int \<times> int) list \<Rightarrow> panel list" where
  "rows pp m p l [] = []"
| "rows pp m p l (c # cs) =
     (if l + pp > m then row (fst c) (snd c) (p + 1) # rows pp m (p + 1) pp cs
      else row (fst c) (snd c) p # rows pp m p (l + pp) cs)"

fun ports_from :: "int \<Rightarrow> int \<Rightarrow> int \<Rightarrow> int \<Rightarrow> nat \<Rightarrow> int list" where
  "ports_from pp m p l 0 = []"
| "ports_from pp m p l (Suc n) =
     (if l + pp > m then (p + 1) # ports_from pp m (p + 1) pp n
      else p # ports_from pp m p (l + pp) n)"

text \<open>
  The panels that the result assigns to a port, and the sum of their pixel counts (every
  panel has \<open>panel_pixels\<close> pixels).
\<close>

definition panels_on :: "panel list \<Rightarrow> int \<Rightarrow> panel list" where
  "panels_on df p = filter (\<lambda>r. port r = p) df"

definition port_load :: "int \<Rightarrow> panel list \<Rightarrow> int \<Rightarrow> int" where
  "port_load panel_pixels df p = sum_list (map (\<lambda>r. panel_pixels) (panels_on df p))"

subsection \<open>The aggregation in the script\<close>

text \<open>
  The script calls \<^verbatim>\<open>generate_topology\<close> with the module constant as capacity and then
  derives the required number of ports and the port usage table from the data frame.
\<close>

definition PIXEL_CAPACITY_PER_PORT :: int where
  "PIXEL_CAPACITY_PER_PORT = 650000"

text \<open>
  \<^verbatim>\<open>topology_df['port']\<close>: a data frame built from an empty list of rows has no columns,
  so the lookup of the column raises \<^verbatim>\<open>KeyError\<close>. The arithmetic on the columns raises
  \<^verbatim>\<open>OverflowError\<close> when a Python integer does not fit the type of the column.
\<close>

datatype py_error = KeyError | OverflowError

definition port_column :: "panel list \<Rightarrow> py_error + int list" where
  "port_column topology_df =
     (if topology_df = [] then Inl KeyError else Inr (map port topology_df))"

text \<open>\<^verbatim>\<open>num_ports = topology_df['port'].max()\<close>.\<close>

definition num_ports :: "panel list \<Rightarrow> py_error + int" where
  "num_ports topology_df =
     (case port_column topology_df of Inl e \<Rightarrow> Inl e | Inr ps \<Rightarrow> Inr (Max (set ps)))"

text \<open>
  \<^verbatim>\<open>topology_df.groupby('port').size()\<close>: one entry per distinct port, in ascending order of
  the port, with the number of rows of that port.
\<close>

definition group_sizes :: "int list \<Rightarrow> (int \<times> int) list" where
  "group_sizes ps = map (\<lambda>p. (p, int (count_list ps p))) (sorted_list_of_set (set ps))"

text \<open>
  \<^verbatim>\<open>port_counts['Panels Count'] * (res_w * res_h)\<close>: the column of counts holds 64-bit signed
  integers. The Python integer \<^verbatim>\<open>res_w * res_h\<close> is converted to that type, which raises
  \<^verbatim>\<open>OverflowError\<close> when it does not fit, and the product wraps around.
\<close>

definition in_int64 :: "int \<Rightarrow> bool" where
  "in_int64 v \<longleftrightarrow> - (2 ^ 63) \<le> v \<and> v < 2 ^ 63"

definition int64_wrap :: "int \<Rightarrow> int" where
  "int64_wrap v = (v + 2 ^ 63) mod 2 ^ 64 - 2 ^ 63"

text \<open>
  Binary floating point with a significand of 53 bits (IEEE 754 binary64), as the columns
  of type \<^verbatim>\<open>float64\<close> have it. A finite floating-point number is a rational; \<open>binary64 x\<close>
  is the number that \<open>x\<close> is rounded to: the nearest multiple of the unit in the last place
  of \<open>x\<close>, ties to the even multiple. Below \<open>2 powi (- 1022)\<close> the unit stays
  \<open>2 powi (- 1074)\<close> (subnormal numbers). The quantities of the script never reach the
  largest finite number.
\<close>

function bit_length :: "int \<Rightarrow> int" where
  "bit_length n = (if n \<le> 0 then 0 else bit_length (n div 2) + 1)"
  by pat_completeness auto
termination
  by (relation "measure nat") auto

declare bit_length.simps [simp del]

text \<open>The integer \<open>e\<close> with \<open>2 powi e \<le> x < 2 powi (e + 1)\<close>, for a positive \<open>x\<close>.\<close>

definition log2_floor :: "rat \<Rightarrow> int" where
  "log2_floor x =
     (let (a, b) = quotient_of x;
          d = bit_length a - bit_length b
      in if 2 powi d \<le> x then d else d - 1)"

definition round_half_even :: "rat \<Rightarrow> int" where
  "round_half_even q =
     (let f = \<lfloor>q\<rfloor>; d = q - of_int f
      in if d < 1 / 2 then f else if 1 / 2 < d then f + 1 else if even f then f else f + 1)"

definition ulp :: "rat \<Rightarrow> rat" where
  "ulp x = 2 powi (max (log2_floor \<bar>x\<bar>) (- 1022) - 52)"

definition binary64 :: "rat \<Rightarrow> rat" where
  "binary64 x = (if x = 0 then 0 else of_int (round_half_even (x / ulp x)) * ulp x)"

text \<open>
  The conversion of a Python integer to \<^verbatim>\<open>float64\<close>; it raises \<^verbatim>\<open>OverflowError\<close> when the
  integer is beyond the largest finite number.
\<close>

definition float_of_int :: "int \<Rightarrow> py_error + rat" where
  "float_of_int v =
     (let d = binary64 (of_int v) in if 2 ^ 1024 \<le> \<bar>d\<bar> then Inl OverflowError else Inr d)"

text \<open>
  \<^verbatim>\<open>.round(1)\<close> on a \<^verbatim>\<open>float64\<close> column: numpy multiplies by 10, rounds to the nearest
  integer \<open>n\<close>, ties to even, and divides by 10. The last quotient is the floating-point
  number nearest to \<open>n / 10\<close>. That number is determined by \<open>n\<close>, and the model records
  the decimal \<open>n / 10\<close> itself, which is what the table shows.
\<close>

definition np_round1 :: "rat \<Rightarrow> rat" where
  "np_round1 x = of_int (round_half_even (binary64 (x * 10))) / 10"

text \<open>
  \<^verbatim>\<open>(port_counts['Pixel Load'] / PIXEL_CAPACITY_PER_PORT * 100).round(1)\<close>: the pixel load is
  converted to \<^verbatim>\<open>float64\<close>, divided by the capacity (already a \<^verbatim>\<open>float64\<close> here) and
  multiplied by 100, each result rounded to \<^verbatim>\<open>float64\<close>. A division by zero, which pandas
  answers with an infinity or a not-a-number, is \<open>None\<close>.
\<close>

definition utilization_percent :: "int \<Rightarrow> rat \<Rightarrow> rat option" where
  "utilization_percent load capacity =
     (if capacity = 0 then None
      else Some (np_round1 (binary64 (binary64 (binary64 (of_int load) / capacity) * 100))))"

text \<open>
  One row of the port usage table, with the columns \<^verbatim>\<open>port\<close>, \<^verbatim>\<open>Panels Count\<close>,
  \<^verbatim>\<open>Pixel Load\<close> and \<^verbatim>\<open>Utilization (%)\<close>. The capacity is a parameter of the model; the
  script passes \<open>PIXEL_CAPACITY_PER_PORT\<close>.
\<close>

record port_usage =
  usage_port :: int
  panels_count :: int
  pixel_load :: int
  utilization :: "rat option"

definition usage_row :: "int \<Rightarrow> int \<Rightarrow> rat \<Rightarrow> int \<times> int \<Rightarrow> port_usage" where
  "usage_row res_w res_h capacity g =
     (let load = int64_wrap (snd g * (res_w * res_h))
      in \<lparr>usage_port = fst g, panels_count = snd g, pixel_load = load,
          utilization = utilization_percent load capacity\<rparr>)"

definition port_counts :: "panel list \<Rightarrow> int \<Rightarrow> int \<Rightarrow> int \<Rightarrow> py_error + port_usage list" where
  "port_counts topology_df res_w res_h capacity =
     (case port_column topology_df of
        Inl e \<Rightarrow> Inl e
      | Inr ps \<Rightarrow>
          if \<not> in_int64 (res_w * res_h) then Inl OverflowError
          else (case float_of_int capacity of
                  Inl e \<Rightarrow> Inl e
                | Inr c \<Rightarrow> Inr (map (usage_row res_w res_h c) (group_sizes ps))))"

section \<open>The loops as one pass over the visiting order\<close>

lemma fold_nested:
  "fold (\<lambda>x. fold (f x) (g x)) xs s =
   fold (\<lambda>c. f (fst c) (snd c)) (concat (map (\<lambda>x. map (Pair x) (g x)) xs)) s"
  by (induction xs arbitrary: s) (simp_all add: fold_map comp_def)

lemma topology_data_fold:
  "topology_data (fold (\<lambda>c. assign_panel pp m (fst c) (snd c)) cs s) =
   topology_data s @ rows pp m (current_port s) (current_port_pixels s) cs"
  by (induction cs arbitrary: s)
     (simp_all add: assign_panel_def check_capacity_def row_def Let_def)

lemma generate_topology_rows:
  "generate_topology w h rw rh m = rows (rw * rh) m 1 0 (visit_order w h)"
proof -
  have "column_loop (rw * rh) m h = (\<lambda>x. fold (assign_panel (rw * rh) m x) (y_range h x))"
    by (rule ext)+ (simp add: column_loop_def)
  then show ?thesis
    by (simp add: generate_topology_def fold_nested topology_data_fold visit_order_def)
qed

lemma rows_coords: "map (\<lambda>r. (panel_x r, panel_y r)) (rows pp m p l cs) = cs"
  by (induction cs arbitrary: p l) (simp_all add: row_def)

lemma rows_ports: "map port (rows pp m p l cs) = ports_from pp m p l (length cs)"
  by (induction cs arbitrary: p l) (simp_all add: row_def)

lemma map_int_upt: "map int [0..<k] = [0..int k - 1]"
  by (induction k) (simp_all add: upto_rec2)

lemma range_up_upto: "range_up n = [0..n - 1]"
  by (cases "0 \<le> n") (simp_all add: range_up_def map_int_upt)

lemma map_sub_upt: "map (\<lambda>i. int k - 1 - int i) [0..<k] = rev [0..int k - 1]"
proof -
  have "map (\<lambda>i. int k - 1 - int i) [0..<k] = rev (map int [0..<k])"
    by (rule nth_equalityI) (auto simp: rev_nth)
  then show ?thesis by (simp add: map_int_upt)
qed

lemma range_down_rev: "range_down (n - 1) = rev [0..n - 1]"
proof (cases "0 \<le> n")
  case True
  then show ?thesis using map_sub_upt [of "nat n"] by (simp add: range_down_def)
next
  case False
  then show ?thesis by (simp add: range_down_def)
qed

lemma y_range_upto: "y_range h x = (if x mod 2 = 0 then [0..h - 1] else rev [0..h - 1])"
  by (simp add: y_range_def range_up_upto range_down_rev)

lemma visit_order_upto:
  "visit_order w h = concat (map (\<lambda>x. map (Pair x) (if x mod 2 = 0 then [0..h - 1] else rev [0..h - 1])) [0..w - 1])"
  by (simp add: visit_order_def range_up_upto y_range_upto)

lemma visit_order_columns: "visit_order w h = concat (map (column h) [0..w - 1])"
  by (simp add: visit_order_upto column_def [abs_def])

lemma distinct_columns:
  "distinct xs \<Longrightarrow> distinct (concat (map (column h) xs))"
  by (induction xs) (auto simp: column_def distinct_map inj_on_def)

lemma length_columns: "length (concat (map (column h) xs)) = length xs * nat h"
  by (induction xs) (simp_all add: column_def)

lemma set_columns: "set (concat (map (column h) xs)) = set xs \<times> {0..h - 1}"
  by (induction xs) (auto simp: column_def)

lemma successively_upto: "successively (\<lambda>a b. b = a + 1) [i..j]"
proof (induction i j rule: upto.induct)
  case (1 i j)
  show ?case
  proof (cases "i \<le> j")
    case True
    then have "[i..j] = i # [i + 1..j]" by (simp add: upto_rec1)
    moreover have "[i + 1..j] \<noteq> [] \<Longrightarrow> hd [i + 1..j] = i + 1"
      by (simp add: upto_rec1)
    ultimately show ?thesis using 1 True by (auto simp: successively_Cons)
  next
    case False
    then show ?thesis by simp
  qed
qed

lemma successively_column: "successively adjacent (column h x)"
proof -
  have "successively (\<lambda>a b. adjacent (x, a) (x, b)) [0..h - 1]"
    by (rule successively_mono [OF successively_upto]) (simp_all add: adjacent_def)
  moreover have "successively (\<lambda>a b. adjacent (x, b) (x, a)) [0..h - 1]"
    by (rule successively_mono [OF successively_upto]) (simp_all add: adjacent_def)
  ultimately show ?thesis
    by (simp add: column_def successively_map)
qed

lemma upto_ends:
  assumes "1 \<le> (h::int)"
  shows "[0..h - 1] \<noteq> []" and "hd [0..h - 1] = 0" and "last [0..h - 1] = h - 1"
proof -
  show "[0..h - 1] \<noteq> []" using assms by simp
  show "hd [0..h - 1] = 0" using assms by (simp add: upto_rec1 [of 0])
  show "last [0..h - 1] = h - 1" using assms by (simp add: upto_rec2 [of 0])
qed

lemma column_ends:
  assumes "1 \<le> h"
  shows "column h x \<noteq> []"
    and "hd (column h x) = (x, if x mod 2 = 0 then 0 else h - 1)"
    and "last (column h x) = (x, if x mod 2 = 0 then h - 1 else 0)"
  using upto_ends [OF assms]
  by (simp_all add: column_def hd_map last_map hd_rev last_rev del: upto_Nil upto_Nil2)

lemma last_columns:
  assumes "1 \<le> h"
  shows "last (concat (map (column h) [0..int k])) = last (column h (int k))"
  using column_ends(1) [OF assms] by (simp add: upto_rec2 [of 0 "int k"])

lemma successively_columns:
  assumes "1 \<le> h"
  shows "successively adjacent (concat (map (column h) [0..int k - 1]))"
proof (induction k)
  case 0
  show ?case by simp
next
  case (Suc k)
  have split: "[0..int (Suc k) - 1] = [0..int k - 1] @ [int k]"
    by (simp add: upto_rec2)
  have ih: "successively adjacent (concat (map (column h) [0..int k - 1]))"
    by (rule Suc.IH)
  show ?case
  proof (cases k)
    case 0
    then show ?thesis unfolding split by (simp add: successively_column)
  next
    case (Suc j)
    have "last (concat (map (column h) [0..int k - 1])) = last (column h (int j))"
      using last_columns [OF assms, of j] Suc by simp
    moreover have "adjacent (last (column h (int j))) (hd (column h (int k)))"
      using Suc assms by (simp add: column_ends adjacent_def) presburger
    ultimately show ?thesis
      using ih unfolding split
      by (simp add: successively_append_iff successively_column)
  qed
qed

section \<open>Dependence on the panel resolution\<close>

text \<open>
  Claim C9. \<^verbatim>\<open>generate_topology\<close> reads the two resolution arguments only through their
  product: two calls that agree on the grid, on the capacity and on the product of the
  resolution arguments return the same rows.
\<close>

theorem generate_topology_product_only:
  assumes "panel_res_w * panel_res_h = panel_res_w' * panel_res_h'"
  shows "generate_topology panels_w panels_h panel_res_w panel_res_h max_pixels =
         generate_topology panels_w panels_h panel_res_w' panel_res_h' max_pixels"
  using assms by (simp add: generate_topology_def)

theorem generate_topology_product_only_witness:
  "(2::int) * 6 = 3 * 4 \<and>
   generate_topology 2 2 2 6 30 = generate_topology 2 2 3 4 30"
  using generate_topology_product_only [of 2 6 3 4 2 2 30] by simp

section \<open>The serpentine order\<close>

text \<open>
  Claim C5. For a grid of at least one column and one row, the cells of the result are
  the columns \<open>0, 1, \<dots>, panels_w - 1\<close> from left to right, each even column with its
  rows ascending from \<open>0\<close> to \<open>panels_h - 1\<close> and each odd column with its rows descending
  from \<open>panels_h - 1\<close> to \<open>0\<close>; the cells are pairwise distinct, there are
  \<open>panels_w * panels_h\<close> of them, and they are exactly the cells of the grid.
\<close>

theorem serpentine_order:
  assumes "1 \<le> panels_w" and "1 \<le> panels_h"
  shows "coords (generate_topology panels_w panels_h panel_res_w panel_res_h max_pixels) =
           concat (map (\<lambda>x. map (Pair x)
                     (if x mod 2 = 0 then [0..panels_h - 1] else rev [0..panels_h - 1]))
                   [0..panels_w - 1])
         \<and> distinct (coords (generate_topology panels_w panels_h panel_res_w panel_res_h max_pixels))
         \<and> int (length (coords (generate_topology panels_w panels_h panel_res_w panel_res_h max_pixels)))
             = panels_w * panels_h
         \<and> set (coords (generate_topology panels_w panels_h panel_res_w panel_res_h max_pixels))
             = {0..panels_w - 1} \<times> {0..panels_h - 1}"
proof -
  have c: "coords (generate_topology panels_w panels_h panel_res_w panel_res_h max_pixels)
             = visit_order panels_w panels_h"
    by (simp add: coords_def generate_topology_rows rows_coords)
  have order: "visit_order panels_w panels_h =
           concat (map (\<lambda>x. map (Pair x)
                     (if x mod 2 = 0 then [0..panels_h - 1] else rev [0..panels_h - 1]))
                   [0..panels_w - 1])"
    by (rule visit_order_upto)
  have dist: "distinct (visit_order panels_w panels_h)"
    by (simp add: visit_order_columns distinct_columns)
  have len: "int (length (visit_order panels_w panels_h)) = panels_w * panels_h"
    using assms by (simp add: visit_order_columns length_columns)
  have cover: "set (visit_order panels_w panels_h) = {0..panels_w - 1} \<times> {0..panels_h - 1}"
    unfolding visit_order_columns set_columns by simp
  show ?thesis
    unfolding c using order dist len cover by blast
qed

theorem serpentine_order_witness:
  "(1::int) \<le> 2 \<and> (1::int) \<le> 3 \<and>
   coords (generate_topology 2 3 10 10 250) = [(0, 0), (0, 1), (0, 2), (1, 2), (1, 1), (1, 0)]"
  using serpentine_order [of 2 3 10 10 250] by (simp add: upto.simps)

text \<open>
  Claim C6. For a grid of at least one column and one row, every two consecutive cells of
  the result are physically adjacent: they differ by exactly one in exactly one of the
  two coordinates.
\<close>

theorem serpentine_adjacent:
  assumes "1 \<le> panels_w" and "1 \<le> panels_h"
    and "Suc i < length (generate_topology panels_w panels_h panel_res_w panel_res_h max_pixels)"
  shows "adjacent (coords (generate_topology panels_w panels_h panel_res_w panel_res_h max_pixels) ! i)
                  (coords (generate_topology panels_w panels_h panel_res_w panel_res_h max_pixels) ! Suc i)"
proof -
  have c: "coords (generate_topology panels_w panels_h panel_res_w panel_res_h max_pixels)
             = visit_order panels_w panels_h"
    by (simp add: coords_def generate_topology_rows rows_coords)
  have "successively adjacent (visit_order panels_w panels_h)"
    using successively_columns [OF assms(2), of "nat panels_w"] assms(1)
    by (simp add: visit_order_columns)
  moreover have "Suc i < length (visit_order panels_w panels_h)"
    using assms(3) arg_cong [OF c, of length] by (simp add: coords_def)
  ultimately show ?thesis
    unfolding c by (rule successively_nth)
qed

theorem serpentine_adjacent_witness:
  "(1::int) \<le> 2 \<and> (1::int) \<le> 2 \<and> Suc 1 < length (generate_topology 2 2 10 10 250) \<and>
   adjacent (coords (generate_topology 2 2 10 10 250) ! 1)
            (coords (generate_topology 2 2 10 10 250) ! Suc 1)"
proof -
  have len: "Suc 1 < length (generate_topology 2 2 10 10 250)"
    by code_simp
  show ?thesis
    using len serpentine_adjacent [of 2 2 1 10 10 250] by simp
qed

section \<open>The load of a port\<close>

lemma ports_from_ge: "q \<in> set (ports_from pp m p l n) \<Longrightarrow> p \<le> q"
  by (induction n arbitrary: p l) (fastforce split: if_splits)+

lemma ports_from_count:
  assumes "l = int c * pp"
    and "c = 0 \<or> int c * pp \<le> m \<or> (c = 1 \<and> m < pp)"
    and "q \<in> set (ports_from pp m p l n) \<or> (q = p \<and> 0 < c)"
  shows "int (count_list (ports_from pp m p l n) q + (if q = p then c else 0)) * pp \<le> m
         \<or> (count_list (ports_from pp m p l n) q + (if q = p then c else 0) = 1 \<and> m < pp)"
  using assms
proof (induction n arbitrary: p l c)
  case 0
  then show ?case by auto
next
  case (Suc n)
  show ?case
  proof (cases "l + pp > m")
    case adv: True
    then have eq: "ports_from pp m p l (Suc n) = (p + 1) # ports_from pp m (p + 1) pp n"
      by simp
    have notp: "count_list (ports_from pp m (p + 1) pp n) p = 0"
      using ports_from_ge [of p pp m "p + 1" pp n] by (auto simp: count_list_0_iff)
    show ?thesis
    proof (cases "q = p")
      case True
      have "p \<notin> set (ports_from pp m (p + 1) pp n)"
        using notp by (simp add: count_list_0_iff)
      with Suc.prems(3) True have "0 < c" unfolding eq by auto
      with Suc.prems(2) True notp show ?thesis unfolding eq by auto
    next
      case False
      with Suc.prems have q: "q \<in> set (ports_from pp m (p + 1) pp n) \<or> (q = p + 1 \<and> 0 < (1::nat))"
        unfolding eq by auto
      have "int (count_list (ports_from pp m (p + 1) pp n) q + (if q = p + 1 then 1 else 0)) * pp \<le> m
         \<or> (count_list (ports_from pp m (p + 1) pp n) q + (if q = p + 1 then 1 else 0) = 1 \<and> m < pp)"
        by (rule Suc.IH [of pp 1 "p + 1"]) (use q in auto)
      with False show ?thesis unfolding eq by (auto simp: ac_simps)
    qed
  next
    case False
    then have eq: "ports_from pp m p l (Suc n) = p # ports_from pp m p (l + pp) n"
      by simp
    have l': "l + pp = int (Suc c) * pp" using Suc.prems(1) by (simp add: algebra_simps)
    have inv': "Suc c = 0 \<or> int (Suc c) * pp \<le> m \<or> (Suc c = 1 \<and> m < pp)"
      using False l' by simp
    have q: "q \<in> set (ports_from pp m p (l + pp) n) \<or> (q = p \<and> 0 < Suc c)"
      using Suc.prems(3) unfolding eq by auto
    have "int (count_list (ports_from pp m p (l + pp) n) q + (if q = p then Suc c else 0)) * pp \<le> m
         \<or> (count_list (ports_from pp m p (l + pp) n) q + (if q = p then Suc c else 0) = 1 \<and> m < pp)"
      by (rule Suc.IH [OF l' inv' q])
    then show ?thesis unfolding eq by (auto simp: ac_simps)
  qed
qed

lemma count_list_map_filter: "count_list (map f xs) y = length (filter (\<lambda>x. f x = y) xs)"
  by (induction xs) simp_all

lemma generate_topology_ports:
  "map port (generate_topology w h rw rh m) = ports_from (rw * rh) m 1 0 (length (visit_order w h))"
  by (simp add: generate_topology_rows rows_ports)

lemma length_panels_on:
  "length (panels_on (generate_topology w h rw rh m) p)
     = count_list (ports_from (rw * rh) m 1 0 (length (visit_order w h))) p"
  by (simp add: panels_on_def count_list_map_filter [symmetric] generate_topology_ports)

text \<open>
  Claim C7. For every input and every port \<open>p\<close> that occurs in the result, the sum of the
  pixel counts of the panels assigned to \<open>p\<close> does not exceed the capacity, except when
  \<open>p\<close> holds exactly one panel and that panel's own pixel count exceeds the capacity.
\<close>

theorem port_load_within_capacity:
  assumes "p \<in> port ` set (generate_topology panels_w panels_h panel_res_w panel_res_h max_pixels)"
  shows "port_load (panel_res_w * panel_res_h)
           (generate_topology panels_w panels_h panel_res_w panel_res_h max_pixels) p \<le> max_pixels
         \<or> (length (panels_on (generate_topology panels_w panels_h panel_res_w panel_res_h max_pixels) p) = 1
            \<and> max_pixels < panel_res_w * panel_res_h)"
proof -
  let ?ps = "ports_from (panel_res_w * panel_res_h) max_pixels 1 0 (length (visit_order panels_w panels_h))"
  have "p \<in> set ?ps"
    using assms by (simp add: generate_topology_ports [symmetric])
  then have "int (count_list ?ps p + (if p = 1 then 0 else 0)) * (panel_res_w * panel_res_h) \<le> max_pixels
         \<or> (count_list ?ps p + (if p = 1 then 0 else 0) = 1 \<and> max_pixels < panel_res_w * panel_res_h)"
    by (intro ports_from_count [of 0 0]) simp_all
  then show ?thesis
    by (simp add: port_load_def sum_list_triv length_panels_on)
qed

theorem port_load_within_capacity_witness:
  "2 \<in> port ` set (generate_topology 2 2 10 10 250) \<and>
   (port_load (10 * 10) (generate_topology 2 2 10 10 250) 2 \<le> 250
    \<or> (length (panels_on (generate_topology 2 2 10 10 250) 2) = 1 \<and> (250::int) < 10 * 10))"
proof -
  have mem: "2 \<in> port ` set (generate_topology 2 2 10 10 250)"
    by code_simp
  show ?thesis
    using mem port_load_within_capacity [OF mem] by simp
qed

section \<open>Ports are filled evenly when a panel fits\<close>

lemma mult_le_iff_le_div:
  assumes "0 < (pp::int)"
  shows "a * pp \<le> m \<longleftrightarrow> a \<le> m div pp"
proof
  assume "a * pp \<le> m"
  then have "a * pp div pp \<le> m div pp" using assms by (rule zdiv_mono1)
  then show "a \<le> m div pp" using assms by simp
next
  assume "a \<le> m div pp"
  then have "a * pp \<le> (m div pp) * pp" using assms by (simp add: mult_right_mono)
  also have "\<dots> \<le> m"
    using assms pos_mod_sign [of pp m] div_mult_mod_eq [of m pp] by linarith
  finally show "a * pp \<le> m" .
qed

lemma advance_iff:
  assumes "0 < pp" and "k = nat (m div pp)" and "0 < k"
  shows "m < int j * pp + pp \<longleftrightarrow> k \<le> j"
proof -
  have "int j * pp + pp = (int j + 1) * pp" by (simp add: algebra_simps)
  moreover have "(int j + 1) * pp \<le> m \<longleftrightarrow> int j + 1 \<le> m div pp"
    using assms(1) by (rule mult_le_iff_le_div)
  ultimately show ?thesis using assms(2,3) by linarith
qed

lemma ports_from_closed:
  assumes "0 < pp" and "k = nat (m div pp)" and "0 < k" and "j \<le> k"
  shows "ports_from pp m p (int j * pp) n = map (\<lambda>i. p + int ((j + i) div k)) [0..<n]"
  using assms(4)
proof (induction n arbitrary: p j)
  case 0
  show ?case by simp
next
  case (Suc n)
  have upt: "[0..<Suc n] = 0 # map Suc [0..<n]"
    by (simp add: upt_conv_Cons map_Suc_upt del: upt_Suc)
  show ?case
  proof (cases "k \<le> j")
    case True
    with Suc.prems have jk: "j = k" by simp
    have adv: "m < int j * pp + pp"
      using True advance_iff [OF assms(1-3)] by simp
    have "1 \<le> k" using assms(3) by simp
    then have "ports_from pp m (p + 1) (int 1 * pp) n = map (\<lambda>i. p + 1 + int ((1 + i) div k)) [0..<n]"
      by (rule Suc.IH)
    then show ?thesis
      using adv assms(3) unfolding upt by (simp add: jk comp_def)
  next
    case False
    then have stay: "\<not> m < int j * pp + pp"
      using advance_iff [OF assms(1-3)] by simp
    have l': "int j * pp + pp = int (Suc j) * pp" by (simp add: algebra_simps)
    have "Suc j \<le> k" using False by simp
    then have "ports_from pp m p (int (Suc j) * pp) n = map (\<lambda>i. p + int ((Suc j + i) div k)) [0..<n]"
      by (rule Suc.IH)
    then show ?thesis
      using stay False unfolding upt by (simp add: l' comp_def)
  qed
qed

lemma count_block:
  assumes "0 < k" and "(d + 1) * k \<le> n"
  shows "length (filter (\<lambda>i. i div k = d) [0..<n]) = k"
proof -
  have "{i. i div k = d} \<inter> set [0..<n] = {d * k..<d * k + k}"
  proof (rule set_eqI)
    fix i
    have "i div k = d \<longleftrightarrow> d * k \<le> i \<and> i < d * k + k"
    proof
      assume "i div k = d"
      then show "d * k \<le> i \<and> i < d * k + k"
        using assms(1) dividend_less_div_times [of k i] by auto
    next
      assume "d * k \<le> i \<and> i < d * k + k"
      then show "i div k = d"
        by (intro div_nat_eqI) (simp_all add: mult.commute)
    qed
    then show "i \<in> {i. i div k = d} \<inter> set [0..<n] \<longleftrightarrow> i \<in> {d * k..<d * k + k}"
      using assms(2) by auto
  qed
  then show ?thesis by (simp add: distinct_length_filter)
qed

lemma Max_blocks:
  assumes "0 < n"
  shows "Max ((\<lambda>i. 1 + int (i div k)) ` {0..<n}) = 1 + int ((n - 1) div k)"
proof (rule Max_eqI)
  show "finite ((\<lambda>i. 1 + int (i div k)) ` {0..<n})" by simp
  show "1 + int ((n - 1) div k) \<in> (\<lambda>i. 1 + int (i div k)) ` {0..<n}"
    using assms by (intro image_eqI [where x = "n - 1"]) simp_all
  fix y
  assume "y \<in> (\<lambda>i. 1 + int (i div k)) ` {0..<n}"
  then obtain i where "i < n" and "y = 1 + int (i div k)" by auto
  then show "y \<le> 1 + int ((n - 1) div k)"
    by (simp add: div_le_mono)
qed

lemma ceiling_blocks:
  assumes "0 < k" and "0 < n"
  shows "1 + int ((n - 1) div k) = \<lceil>real n / real k\<rceil>"
proof -
  define q where "q = (n - 1) div k"
  define r where "r = (n - 1) mod k"
  have n: "n = q * k + r + 1" using assms(2) by (simp add: q_def r_def)
  have r: "r < k" using assms(1) by (simp add: r_def)
  have "- int n = int k * (- (int q + 1)) + (int k - int r - 1)"
    by (simp add: n algebra_simps)
  moreover have "0 \<le> int k - int r - 1" and "int k - int r - 1 < int k" using r by simp_all
  ultimately have "(- int n) div int k = - (int q + 1)"
    by (rule int_div_pos_eq)
  moreover have "\<lceil>real n / real k\<rceil> = - ((- int n) div int k)"
    using ceiling_divide_eq_div [of "int n" "int k"] by simp
  ultimately show ?thesis by (simp add: q_def)
qed

lemma generate_topology_ports_closed:
  assumes "0 < rw * rh" and "rw * rh \<le> m"
  shows "map port (generate_topology w h rw rh m) =
         map (\<lambda>i. 1 + int (i div nat (m div (rw * rh)))) [0..<length (visit_order w h)]"
proof -
  have "1 \<le> m div (rw * rh)"
    using mult_le_iff_le_div [OF assms(1), of 1 m] assms(2) by simp
  then have k: "0 < nat (m div (rw * rh))" by simp
  have "ports_from (rw * rh) m 1 (int 0 * (rw * rh)) (length (visit_order w h)) =
        map (\<lambda>i. 1 + int ((0 + i) div nat (m div (rw * rh)))) [0..<length (visit_order w h)]"
    by (rule ports_from_closed [OF assms(1) refl k]) simp
  then show ?thesis by (simp add: generate_topology_ports)
qed

text \<open>
  Claim C10. When the pixel count of a panel is positive and at most the capacity, let
  \<open>k\<close> be the capacity divided by the pixel count, rounded down. On a grid of at least
  one column and one row, every port other than the highest-numbered one holds exactly
  \<open>k\<close> panels, and the highest port number is the number of panels divided by \<open>k\<close>,
  rounded up.
\<close>

theorem ports_filled_evenly:
  assumes "0 < panel_res_w * panel_res_h" and "panel_res_w * panel_res_h \<le> max_pixels"
    and "1 \<le> panels_w" and "1 \<le> panels_h"
  shows "(\<forall>p \<in> port ` set (generate_topology panels_w panels_h panel_res_w panel_res_h max_pixels).
            p \<noteq> Max (port ` set (generate_topology panels_w panels_h panel_res_w panel_res_h max_pixels)) \<longrightarrow>
            int (length (panels_on (generate_topology panels_w panels_h panel_res_w panel_res_h max_pixels) p))
              = max_pixels div (panel_res_w * panel_res_h))
         \<and> Max (port ` set (generate_topology panels_w panels_h panel_res_w panel_res_h max_pixels))
             = \<lceil>real_of_int (panels_w * panels_h) / real_of_int (max_pixels div (panel_res_w * panel_res_h))\<rceil>"
proof -
  define df where "df = generate_topology panels_w panels_h panel_res_w panel_res_h max_pixels"
  define k where "k = nat (max_pixels div (panel_res_w * panel_res_h))"
  define n where "n = length (visit_order panels_w panels_h)"
  have "1 \<le> max_pixels div (panel_res_w * panel_res_h)"
    using mult_le_iff_le_div [OF assms(1), of 1 max_pixels] assms(2) by simp
  then have k: "0 < k" and ik: "int k = max_pixels div (panel_res_w * panel_res_h)"
    by (simp_all add: k_def)
  have "n = nat panels_w * nat panels_h"
    using assms(3) by (simp add: n_def visit_order_columns length_columns)
  then have n: "0 < n" and "int n = panels_w * panels_h"
    using assms(3,4) by simp_all
  have ports: "map port df = map (\<lambda>i. 1 + int (i div k)) [0..<n]"
    unfolding df_def k_def n_def by (rule generate_topology_ports_closed [OF assms(1,2)])
  have "port ` set df = set (map port df)" by simp
  also have "\<dots> = (\<lambda>i. 1 + int (i div k)) ` {0..<n}" unfolding ports by simp
  finally have used: "port ` set df = (\<lambda>i. 1 + int (i div k)) ` {0..<n}" .
  have mx: "Max (port ` set df) = 1 + int ((n - 1) div k)"
    unfolding used by (rule Max_blocks [OF n])
  have "Max (port ` set df) = \<lceil>real n / real k\<rceil>"
    unfolding mx by (rule ceiling_blocks [OF k n])
  also have "real n = real_of_int (panels_w * panels_h)"
    using \<open>int n = panels_w * panels_h\<close> by (metis of_int_of_nat_eq)
  also have "real k = real_of_int (max_pixels div (panel_res_w * panel_res_h))"
    using ik by (metis of_int_of_nat_eq)
  finally have last: "Max (port ` set df)
      = \<lceil>real_of_int (panels_w * panels_h) / real_of_int (max_pixels div (panel_res_w * panel_res_h))\<rceil>" .
  have full: "int (length (panels_on df p)) = max_pixels div (panel_res_w * panel_res_h)"
    if "p \<in> port ` set df" and "p \<noteq> Max (port ` set df)" for p
  proof -
    from that(1) obtain i where i: "i < n" and p: "p = 1 + int (i div k)"
      unfolding used by auto
    have "i div k \<le> (n - 1) div k" using i by (simp add: div_le_mono)
    moreover have "i div k \<noteq> (n - 1) div k" using that(2) p mx by simp
    ultimately have "i div k + 1 \<le> (n - 1) div k" by simp
    then have "(i div k + 1) * k \<le> (n - 1) div k * k" by (rule mult_le_mono1)
    also have "\<dots> \<le> n - 1" by (rule div_times_less_eq_dividend)
    also have "\<dots> \<le> n" by simp
    finally have blk: "(i div k + 1) * k \<le> n" .
    have "length (panels_on df p) = count_list (map port df) p"
      by (simp add: panels_on_def count_list_map_filter)
    also have "\<dots> = length (filter (\<lambda>j. 1 + int (j div k) = p) [0..<n])"
      unfolding ports by (simp add: count_list_map_filter)
    also have "\<dots> = length (filter (\<lambda>j. j div k = i div k) [0..<n])"
      by (simp add: p)
    also have "\<dots> = k" by (rule count_block [OF k blk])
    finally show ?thesis using ik by simp
  qed
  show ?thesis
    using full last unfolding df_def by blast
qed

theorem ports_filled_evenly_witness:
  "(0::int) < 10 * 10 \<and> (10::int) * 10 \<le> 250 \<and> (1::int) \<le> 5 \<and> (1::int) \<le> 1 \<and>
   1 \<in> port ` set (generate_topology 5 1 10 10 250) \<and>
   1 \<noteq> Max (port ` set (generate_topology 5 1 10 10 250)) \<and>
   int (length (panels_on (generate_topology 5 1 10 10 250) 1)) = 250 div (10 * 10) \<and>
   Max (port ` set (generate_topology 5 1 10 10 250))
     = \<lceil>real_of_int (5 * 1) / real_of_int (250 div (10 * 10))\<rceil>"
proof -
  have a: "(0::int) < 10 * 10" and b: "(10::int) * 10 \<le> 250"
    and c: "(1::int) \<le> 5" and d: "(1::int) \<le> 1"
    by simp_all
  have mem: "1 \<in> port ` set (generate_topology 5 1 10 10 250)"
    by code_simp
  have low: "1 \<noteq> Max (port ` set (generate_topology 5 1 10 10 250))"
    by code_simp
  show ?thesis
    using a b c d mem low ports_filled_evenly [OF a b c d] by blast
qed

section \<open>Facts about the aggregation\<close>

subsection \<open>Rounding to binary64\<close>

lemma bit_length_bounds:
  "0 < n \<Longrightarrow> 1 \<le> bit_length n \<and> 2 ^ nat (bit_length n - 1) \<le> n \<and> n < 2 ^ nat (bit_length n)"
proof (induction n rule: bit_length.induct)
  case (1 n)
  have bl: "bit_length n = bit_length (n div 2) + 1"
    using "1.prems" by (subst bit_length.simps) simp
  show ?case
  proof (cases "n div 2 = 0")
    case True
    then have "n = 1" using "1.prems" by linarith
    then show ?thesis
      by (simp add: bit_length.simps [of 1] bit_length.simps [of 0])
  next
    case False
    then have pos: "0 < n div 2" using "1.prems" by simp
    have ih: "1 \<le> bit_length (n div 2) \<and> 2 ^ nat (bit_length (n div 2) - 1) \<le> n div 2
        \<and> n div 2 < 2 ^ nat (bit_length (n div 2))"
      using "1.IH" "1.prems" pos by simp
    define b where "b = nat (bit_length (n div 2) - 1)"
    have b: "nat (bit_length (n div 2)) = Suc b" using ih unfolding b_def by linarith
    have lo: "(2::int) ^ b \<le> n div 2" and hi: "n div 2 < 2 ^ Suc b"
      using ih unfolding b b_def [symmetric] by simp_all
    have "nat (bit_length n - 1) = Suc b" and "nat (bit_length n) = Suc (Suc b)"
      using ih unfolding bl b_def by linarith+
    moreover have "(2::int) ^ Suc b \<le> n" using lo by simp
    moreover have "n < 2 ^ Suc (Suc b)" using hi by simp
    moreover have "1 \<le> bit_length n" using ih bl by simp
    ultimately show ?thesis by simp
  qed
qed

lemma bit_length_powi:
  assumes "0 < n"
  shows "2 powi (bit_length n - 1) \<le> (of_int n :: rat)" and "(of_int n :: rat) < 2 powi bit_length n"
proof -
  from bit_length_bounds [OF assms]
  have b: "1 \<le> bit_length n" and lo: "2 ^ nat (bit_length n - 1) \<le> n"
    and hi: "n < 2 ^ nat (bit_length n)" by simp_all
  have "(of_int (2 ^ nat (bit_length n - 1)) :: rat) \<le> of_int n"
    using lo by (simp only: of_int_le_iff)
  then show "2 powi (bit_length n - 1) \<le> (of_int n :: rat)"
    using b by (simp add: power_int_def)
  have "(of_int n :: rat) < of_int (2 ^ nat (bit_length n))"
    using hi by (simp only: of_int_less_iff)
  then show "(of_int n :: rat) < 2 powi bit_length n"
    using b by (simp add: power_int_def)
qed

lemma log2_floor_bounds:
  assumes "0 < x"
  shows "2 powi log2_floor x \<le> x" and "x < 2 powi (log2_floor x + 1)"
proof -
  obtain a b where q: "quotient_of x = (a, b)" by (cases "quotient_of x")
  then have x: "x = of_int a / of_int b" and b: "0 < b"
    by (simp_all add: quotient_of_div quotient_of_denom_pos)
  then have a: "0 < a" using assms by (simp add: zero_less_divide_iff)
  define d where "d = bit_length a - bit_length b"
  have la: "2 powi (bit_length a - 1) \<le> (of_int a :: rat)" and ha: "(of_int a :: rat) < 2 powi bit_length a"
    using bit_length_powi [OF a] by simp_all
  have lb: "2 powi (bit_length b - 1) \<le> (of_int b :: rat)" and hb: "(of_int b :: rat) < 2 powi bit_length b"
    using bit_length_powi [OF b] by simp_all
  have bpos: "(0::rat) < of_int b" using b by simp
  have "x * of_int b = of_int a" using x bpos by simp
  have up: "x < 2 powi (d + 1)"
  proof -
    have "of_int a < (2 powi bit_length a :: rat)" by (rule ha)
    also have "\<dots> = 2 powi (d + 1) * 2 powi (bit_length b - 1)"
      by (simp add: d_def flip: power_int_add)
    also have "\<dots> \<le> 2 powi (d + 1) * of_int b"
      using lb by (intro mult_left_mono) simp_all
    finally show ?thesis using bpos by (simp add: x pos_divide_less_eq)
  qed
  have low: "2 powi (d - 1) < x"
  proof -
    have "2 powi (d - 1) * of_int b < (2 powi (d - 1) * 2 powi bit_length b :: rat)"
      using hb by (intro mult_strict_left_mono) simp_all
    also have "\<dots> = 2 powi (bit_length a - 1)"
      by (simp add: d_def flip: power_int_add)
    also have "\<dots> \<le> of_int a" by (rule la)
    finally show ?thesis using bpos by (simp add: x pos_less_divide_eq)
  qed
  have e: "log2_floor x = (if 2 powi d \<le> x then d else d - 1)"
    by (simp add: log2_floor_def q d_def)
  show "2 powi log2_floor x \<le> x" using low by (simp add: e)
  show "x < 2 powi (log2_floor x + 1)" using up by (simp add: e)
qed

lemma log2_floor_mono:
  assumes "0 < x" and "x \<le> y"
  shows "log2_floor x \<le> log2_floor y"
proof (rule ccontr)
  assume "\<not> log2_floor x \<le> log2_floor y"
  then have "log2_floor y + 1 \<le> log2_floor x" by simp
  then have "(2 powi (log2_floor y + 1) :: rat) \<le> 2 powi log2_floor x"
    by (intro power_int_increasing) simp_all
  also have "\<dots> \<le> x" using assms(1) by (rule log2_floor_bounds)
  finally have "2 powi (log2_floor y + 1) \<le> y" using assms(2) by simp
  moreover have "y < 2 powi (log2_floor y + 1)"
    using assms by (intro log2_floor_bounds) simp
  ultimately show False by simp
qed

lemma round_half_even_of_int: "round_half_even (of_int n) = n"
  by (simp add: round_half_even_def)

lemma round_half_even_floor: "\<lfloor>q\<rfloor> \<le> round_half_even q"
  by (simp add: round_half_even_def Let_def)

lemma round_half_even_ceiling: "round_half_even q \<le> \<lceil>q\<rceil>"
proof (cases "q = of_int \<lfloor>q\<rfloor>")
  case True
  then have "round_half_even q = \<lfloor>q\<rfloor>"
    using round_half_even_of_int [of "\<lfloor>q\<rfloor>"] by simp
  then show ?thesis by (simp add: floor_le_ceiling)
next
  case False
  then have "\<lceil>q\<rceil> = \<lfloor>q\<rfloor> + 1"
    by (metis ceiling_altdef)
  then show ?thesis by (simp add: round_half_even_def Let_def)
qed

lemma round_half_even_ge:
  assumes "of_int n \<le> q"
  shows "n \<le> round_half_even q"
proof -
  have "n \<le> \<lfloor>q\<rfloor>" using assms by (simp only: le_floor_iff)
  then show ?thesis using round_half_even_floor [of q] by linarith
qed

lemma round_half_even_le:
  assumes "q \<le> of_int n"
  shows "round_half_even q \<le> n"
proof -
  have "\<lceil>q\<rceil> \<le> n" using assms by (simp only: ceiling_le_iff)
  then show ?thesis using round_half_even_ceiling [of q] by linarith
qed

lemma round_half_even_near: "\<bar>of_int (round_half_even q) - q\<bar> \<le> 1 / 2"
proof -
  have "of_int \<lfloor>q\<rfloor> \<le> q" and "q < of_int \<lfloor>q\<rfloor> + 1" by linarith+
  then show ?thesis
    by (auto simp: round_half_even_def Let_def abs_le_iff)
qed

lemma round_half_even_mono:
  assumes "x \<le> y"
  shows "round_half_even x \<le> round_half_even y"
proof (cases "\<lfloor>x\<rfloor> = \<lfloor>y\<rfloor>")
  case True
  then show ?thesis
    using assms by (auto simp: round_half_even_def Let_def)
next
  case False
  then have "\<lfloor>x\<rfloor> + 1 \<le> \<lfloor>y\<rfloor>"
    using floor_mono [OF assms] by simp
  then have "x \<le> of_int \<lfloor>y\<rfloor>"
    by (metis floor_less_iff less_eq_rat_def not_less zle_add1_eq_le)
  then have "round_half_even x \<le> \<lfloor>y\<rfloor>" by (rule round_half_even_le)
  also have "\<dots> \<le> round_half_even y" by (rule round_half_even_floor)
  finally show ?thesis .
qed

lemma round_half_even_minus: "round_half_even (- q) = - round_half_even q"
proof (cases "q = of_int \<lfloor>q\<rfloor>")
  case True
  then obtain n where "q = of_int n" ..
  then show ?thesis
    using round_half_even_of_int [of n] round_half_even_of_int [of "- n"] by simp
next
  case False
  then have c: "\<lceil>q\<rceil> = \<lfloor>q\<rfloor> + 1"
    by (metis ceiling_altdef)
  have f: "\<lfloor>- q\<rfloor> = - \<lfloor>q\<rfloor> - 1"
    using c by (simp add: floor_minus)
  show ?thesis
    unfolding round_half_even_def Let_def f
    by (auto simp: algebra_simps)
qed

lemma ulp_pos: "0 < ulp x"
  by (simp add: ulp_def)

lemma binary64_ulp: "x \<noteq> 0 \<Longrightarrow> binary64 x = of_int (round_half_even (x / ulp x)) * ulp x"
  by (simp add: binary64_def)

lemma binary64_minus: "binary64 (- x) = - binary64 x"
  by (simp add: binary64_def ulp_def round_half_even_minus)

lemma binary64_nonneg:
  assumes "0 \<le> x"
  shows "0 \<le> binary64 x"
proof (cases "x = 0")
  case True
  then show ?thesis by (simp add: binary64_def)
next
  case False
  have "of_int 0 \<le> x / ulp x" using assms ulp_pos [of x] by simp
  then have "0 \<le> round_half_even (x / ulp x)" by (rule round_half_even_ge)
  then show ?thesis using False ulp_pos [of x] by (simp add: binary64_ulp)
qed

lemma powi_split_53: "(2::rat) powi (e + 1) = 2 ^ 53 * 2 powi (e - 52)"
proof -
  have eq: "53 + (e - 52) = e + 1" by simp
  have "(2::rat) powi (53 + (e - 52)) = 2 powi 53 * 2 powi (e - 52)"
    by (rule power_int_add) simp
  then have "(2::rat) powi (e + 1) = 2 powi 53 * 2 powi (e - 52)"
    unfolding eq .
  also have "(2::rat) powi 53 = 2 ^ 53" by (rule power_int_numeral)
  finally show ?thesis .
qed

lemma powi_split_52: "(2::rat) powi e = 2 ^ 52 * 2 powi (e - 52)"
proof -
  have eq: "52 + (e - 52) = e" by simp
  have "(2::rat) powi (52 + (e - 52)) = 2 powi 52 * 2 powi (e - 52)"
    by (rule power_int_add) simp
  then have "(2::rat) powi (e) = 2 powi 52 * 2 powi (e - 52)"
    unfolding eq .
  also have "(2::rat) powi 52 = 2 ^ 52" by (rule power_int_numeral)
  finally show ?thesis .
qed

lemma binary64_mono_pos:
  assumes "0 < x" and "x \<le> y"
  shows "binary64 x \<le> binary64 y"
proof -
  define ex where "ex = max (log2_floor x) (- 1022)"
  define ey where "ey = max (log2_floor y) (- 1022)"
  have y: "0 < y" using assms by simp
  have ux: "ulp x = 2 powi (ex - 52)" and uy: "ulp y = 2 powi (ey - 52)"
    using assms y by (simp_all add: ulp_def ex_def ey_def)
  have le: "ex \<le> ey"
    using log2_floor_mono [OF assms] by (simp add: ex_def ey_def)
  have bx: "binary64 x = of_int (round_half_even (x / ulp x)) * ulp x"
    and "by": "binary64 y = of_int (round_half_even (y / ulp y)) * ulp y"
    using assms y by (simp_all add: binary64_ulp)
  show ?thesis
  proof (cases "ex = ey")
    case True
    then have u: "ulp x = ulp y" by (simp add: ux uy)
    have "x / ulp y \<le> y / ulp y"
      using assms(2) ulp_pos [of y] by (simp add: divide_right_mono)
    then have "round_half_even (x / ulp y) \<le> round_half_even (y / ulp y)"
      by (rule round_half_even_mono)
    then show ?thesis
      unfolding bx "by" u using ulp_pos [of y] by (simp add: mult_right_mono)
  next
    case False
    then have lt: "ex + 1 \<le> ey" using le by simp
    then have eyl: "ey = log2_floor y" by (simp add: ex_def ey_def)
    have "x < 2 powi (log2_floor x + 1)" using assms(1) by (rule log2_floor_bounds)
    also have "\<dots> \<le> 2 powi (ex + 1)"
      by (intro power_int_increasing) (simp_all add: ex_def)
    finally have "x \<le> 2 powi (ex + 1)" by simp
    also have "(2 powi (ex + 1) :: rat) = 2 ^ 53 * ulp x"
      unfolding ux by (rule powi_split_53)
    finally have "x / ulp x \<le> of_int (2 ^ 53)"
      using ulp_pos [of x] by (simp add: pos_divide_le_eq)
    then have "round_half_even (x / ulp x) \<le> 2 ^ 53" by (rule round_half_even_le)
    then have "(of_int (round_half_even (x / ulp x)) :: rat) \<le> of_int (2 ^ 53)"
      by (simp only: of_int_le_iff)
    then have "binary64 x \<le> 2 ^ 53 * ulp x"
      unfolding bx using ulp_pos [of x] by (simp add: mult_right_mono)
    also have "\<dots> = 2 powi (ex + 1)"
      unfolding ux by (rule powi_split_53 [symmetric])
    also have "\<dots> \<le> 2 powi ey"
      using lt by (intro power_int_increasing) simp_all
    also have "\<dots> = 2 ^ 52 * ulp y"
      unfolding uy by (rule powi_split_52)
    also have "\<dots> \<le> binary64 y"
    proof -
      have "2 powi ey \<le> y" unfolding eyl using y by (rule log2_floor_bounds)
      then have "2 ^ 52 * ulp y \<le> y"
        unfolding uy using powi_split_52 [of ey] by simp
      then have "of_int (2 ^ 52) \<le> y / ulp y"
        using ulp_pos [of y] by (simp add: pos_le_divide_eq)
      then have "2 ^ 52 \<le> round_half_even (y / ulp y)" by (rule round_half_even_ge)
      then have "(of_int (2 ^ 52) :: rat) \<le> of_int (round_half_even (y / ulp y))"
        by (simp only: of_int_le_iff)
      then show ?thesis
        unfolding "by" using ulp_pos [of y] by (simp add: mult_right_mono)
    qed
    finally show ?thesis .
  qed
qed

lemma binary64_mono:
  assumes "x \<le> y"
  shows "binary64 x \<le> binary64 y"
proof -
  consider "0 < x" | "x \<le> 0" "0 \<le> y" | "y < 0" by linarith
  then show ?thesis
  proof cases
    case 1
    then show ?thesis using assms by (rule binary64_mono_pos)
  next
    case 2
    have "0 \<le> binary64 (- x)" using 2(1) by (intro binary64_nonneg) simp
    then have "binary64 x \<le> 0" by (simp add: binary64_minus)
    also have "0 \<le> binary64 y" using 2(2) by (rule binary64_nonneg)
    finally show ?thesis .
  next
    case 3
    have "binary64 (- y) \<le> binary64 (- x)"
      using 3 assms by (intro binary64_mono_pos) simp_all
    then show ?thesis by (simp add: binary64_minus)
  qed
qed

subsection \<open>Conversions and bounds\<close>

lemma binary64_1: "binary64 1 = 1"
  by code_simp

lemma binary64_100: "binary64 100 = 100"
  by code_simp

lemma binary64_1000: "binary64 1000 = 1000"
  by code_simp

lemma binary64_2_63: "binary64 (2 ^ 63) = 2 ^ 63"
  by code_simp

lemma int64_wrap_id: "in_int64 v \<Longrightarrow> int64_wrap v = v"
  by (simp add: in_int64_def int64_wrap_def)

lemma binary64_int64_bounds:
  assumes "in_int64 v"
  shows "\<bar>binary64 (of_int v)\<bar> \<le> 2 ^ 63"
proof -
  have "(of_int v :: rat) \<le> 2 ^ 63" and "- (2 ^ 63) \<le> (of_int v :: rat)"
    using assms unfolding in_int64_def
    by (metis less_imp_le of_int_le_iff of_int_numeral of_int_power, metis of_int_le_iff of_int_minus of_int_numeral of_int_power)
  then have "binary64 (of_int v) \<le> binary64 (2 ^ 63)" and "binary64 (- (2 ^ 63)) \<le> binary64 (of_int v)"
    by (simp_all only: binary64_mono)
  then have "binary64 (of_int v) \<le> 2 ^ 63" and "- (2 ^ 63) \<le> binary64 (of_int v)"
    unfolding binary64_minus binary64_2_63 by this+
  then show ?thesis
    by (auto simp: abs_le_iff)
qed

lemma binary64_int_nonzero:
  assumes "v \<noteq> 0"
  shows "binary64 (of_int v) \<noteq> 0"
proof (cases "0 < v")
  case True
  then have "(1::rat) \<le> of_int v" by simp
  then have "binary64 1 \<le> binary64 (of_int v)" by (rule binary64_mono)
  then show ?thesis by (simp add: binary64_1)
next
  case False
  then have "(of_int v :: rat) \<le> - 1" using assms by simp
  then have "binary64 (of_int v) \<le> binary64 (- 1)" by (rule binary64_mono)
  then show ?thesis by (simp add: binary64_minus binary64_1)
qed

lemma float_of_int_int64:
  assumes "in_int64 v"
  shows "float_of_int v = Inr (binary64 (of_int v))"
proof -
  have "\<bar>binary64 (of_int v)\<bar> \<le> 2 ^ 63" using assms by (rule binary64_int64_bounds)
  also have "(2::rat) ^ 63 < 2 ^ 1024" by simp
  finally show ?thesis by (simp add: float_of_int_def Let_def)
qed

lemma utilization_at_least_100:
  assumes "0 < m" and "m \<le> pp"
  shows "100 \<le> np_round1 (binary64 (binary64 (binary64 (of_int pp) / binary64 (of_int m)) * 100))"
proof -
  define c where "c = binary64 (of_int m)"
  define a where "a = binary64 (of_int pp)"
  define q1 where "q1 = binary64 (a / c)"
  define q2 where "q2 = binary64 (q1 * 100)"
  have "(1::rat) \<le> of_int m" using assms(1) by simp
  then have "binary64 1 \<le> c" unfolding c_def by (rule binary64_mono)
  then have c: "1 \<le> c" by (simp add: binary64_1)
  have "(of_int m :: rat) \<le> of_int pp" using assms(2) by simp
  then have "c \<le> a" unfolding c_def a_def by (rule binary64_mono)
  then have "1 \<le> a / c" using c by (simp add: le_divide_eq)
  then have "binary64 1 \<le> q1" unfolding q1_def by (rule binary64_mono)
  then have "1 \<le> q1" by (simp add: binary64_1)
  then have "100 \<le> q1 * 100" by simp
  then have "binary64 100 \<le> q2" unfolding q2_def by (rule binary64_mono)
  then have "100 \<le> q2" by (simp add: binary64_100)
  then have "1000 \<le> q2 * 10" by simp
  then have "binary64 1000 \<le> binary64 (q2 * 10)" by (rule binary64_mono)
  then have "of_int 1000 \<le> binary64 (q2 * 10)" by (simp add: binary64_1000)
  then have "1000 \<le> round_half_even (binary64 (q2 * 10))" by (rule round_half_even_ge)
  then have "(of_int 1000 :: rat) \<le> of_int (round_half_even (binary64 (q2 * 10)))"
    by (simp only: of_int_le_iff)
  then have "100 \<le> np_round1 q2" by (simp add: np_round1_def)
  then show ?thesis by (simp add: q2_def q1_def a_def c_def)
qed

subsection \<open>The usage table\<close>

lemma map_fst_group_sizes: "map fst (group_sizes ps) = sorted_list_of_set (set ps)"
  by (simp add: group_sizes_def comp_def)

lemma group_sizes_count:
  "g \<in> set (group_sizes ps) \<Longrightarrow> fst g \<in> set ps \<and> snd g = int (count_list ps (fst g))"
  by (auto simp: group_sizes_def)

lemma length_rows: "length (rows pp m p l cs) = length cs"
  by (induction cs arbitrary: p l) simp_all

lemma length_generate_topology:
  "length (generate_topology w h rw rh m) = nat w * nat h"
  by (simp add: generate_topology_rows length_rows visit_order_columns length_columns)

lemma generate_topology_nonempty:
  assumes "1 \<le> w" and "1 \<le> h"
  shows "generate_topology w h rw rh m \<noteq> []"
  using assms length_generate_topology [of w h rw rh m] by auto

section \<open>Panels that exceed the capacity on their own\<close>

text \<open>
  When the pixel count of a panel is non-negative and above the capacity, the check fires
  at every panel, so every panel opens a port of its own.
\<close>

lemma ports_from_oversized:
  assumes "m < pp" and "0 \<le> pp" and "0 \<le> l"
  shows "ports_from pp m p l n = map (\<lambda>i. p + 1 + int i) [0..<n]"
  using assms(3)
proof (induction n arbitrary: p l)
  case 0
  show ?case by simp
next
  case (Suc n)
  have upt: "[0..<Suc n] = 0 # map Suc [0..<n]"
    by (simp add: upt_conv_Cons map_Suc_upt del: upt_Suc)
  have "ports_from pp m (p + 1) pp n = map (\<lambda>i. p + 1 + 1 + int i) [0..<n]"
    using assms(2) by (rule Suc.IH)
  then show ?case
    using assms(1) Suc.prems unfolding upt by (simp add: comp_def)
qed

lemma oversized_ports:
  assumes "m < rw * rh" and "0 \<le> rw * rh"
  shows "map port (generate_topology w h rw rh m) = map (\<lambda>i. 2 + int i) [0..<nat w * nat h]"
  using ports_from_oversized [OF assms, of 0 1 "nat w * nat h"]
  by (simp add: generate_topology_ports visit_order_columns length_columns)

lemma oversized_ports_distinct:
  assumes "m < rw * rh" and "0 \<le> rw * rh"
  shows "distinct (map port (generate_topology w h rw rh m))"
  unfolding oversized_ports [OF assms] by (simp add: distinct_map inj_on_def)

lemma count_list_distinct: "distinct xs \<Longrightarrow> y \<in> set xs \<Longrightarrow> count_list xs y = 1"
  by (induction xs) auto

lemma oversized_alone:
  assumes "m < rw * rh" and "0 \<le> rw * rh"
    and "p \<in> port ` set (generate_topology w h rw rh m)"
  shows "length (panels_on (generate_topology w h rw rh m) p) = 1"
proof -
  have "count_list (map port (generate_topology w h rw rh m)) p = 1"
    using oversized_ports_distinct [OF assms(1,2)] assms(3) by (intro count_list_distinct) simp_all
  then show ?thesis by (simp add: panels_on_def count_list_map_filter)
qed

text \<open>
  Claim C1, as the code has it. For the grid of one panel with 500 pixels and capacity 400,
  the panel is alone on its port, and the usage table has the single row with 1 panel,
  pixel load 500 and utilization 125.0. In general, when the pixel count of a panel is
  non-negative and exceeds the capacity, the capacity check advances to a fresh port and
  resets the load to 0 before the panel is placed, the panel is placed on that port and
  the load becomes the panel's pixel count, above the capacity; in the result every port
  holds exactly one panel. Neither the rows nor the usage table have a field for an
  overflow flag.
\<close>

theorem oversized_panel_fresh_port:
  "(\<exists>u. port_counts (generate_topology 1 1 500 1 400) 500 1 400 = Inr [u]
        \<and> map port (generate_topology 1 1 500 1 400) = [usage_port u]
        \<and> panels_count u = 1 \<and> pixel_load u = 500 \<and> utilization u = Some 125)
   \<and> (max_pixels < panel_pixels \<and> 0 \<le> current_port_pixels s \<longrightarrow>
        current_port (check_capacity panel_pixels max_pixels s) = current_port s + 1
      \<and> current_port_pixels (check_capacity panel_pixels max_pixels s) = 0
      \<and> port (last (topology_data (assign_panel panel_pixels max_pixels x y s))) = current_port s + 1
      \<and> current_port_pixels (assign_panel panel_pixels max_pixels x y s) = panel_pixels)
   \<and> (max_pixels < panel_res_w * panel_res_h \<and> 0 \<le> panel_res_w * panel_res_h \<longrightarrow>
        (\<forall>p \<in> port ` set (generate_topology panels_w panels_h panel_res_w panel_res_h max_pixels).
           length (panels_on (generate_topology panels_w panels_h panel_res_w panel_res_h max_pixels) p) = 1
         \<and> port_load (panel_res_w * panel_res_h)
               (generate_topology panels_w panels_h panel_res_w panel_res_h max_pixels) p
             = panel_res_w * panel_res_h))"
proof -
  have 1: "\<exists>u. port_counts (generate_topology 1 1 500 1 400) 500 1 400 = Inr [u]
        \<and> map port (generate_topology 1 1 500 1 400) = [usage_port u]
        \<and> panels_count u = 1 \<and> pixel_load u = 500 \<and> utilization u = Some 125"
  proof -
    have "port_counts (generate_topology 1 1 500 1 400) 500 1 400
            = Inr [\<lparr>usage_port = 2, panels_count = 1, pixel_load = 500, utilization = Some 125\<rparr>]"
      by code_simp
    moreover have "map port (generate_topology 1 1 500 1 400) = [2]"
      by code_simp
    ultimately show ?thesis by simp
  qed
  have 2: "current_port (check_capacity panel_pixels max_pixels s) = current_port s + 1
      \<and> current_port_pixels (check_capacity panel_pixels max_pixels s) = 0
      \<and> port (last (topology_data (assign_panel panel_pixels max_pixels x y s))) = current_port s + 1
      \<and> current_port_pixels (assign_panel panel_pixels max_pixels x y s) = panel_pixels"
    if "max_pixels < panel_pixels" and "0 \<le> current_port_pixels s"
    using that by (simp add: assign_panel_def check_capacity_def Let_def)
  have 3: "length (panels_on (generate_topology panels_w panels_h panel_res_w panel_res_h max_pixels) p) = 1
         \<and> port_load (panel_res_w * panel_res_h)
               (generate_topology panels_w panels_h panel_res_w panel_res_h max_pixels) p
             = panel_res_w * panel_res_h"
    if "max_pixels < panel_res_w * panel_res_h" and "0 \<le> panel_res_w * panel_res_h"
      and "p \<in> port ` set (generate_topology panels_w panels_h panel_res_w panel_res_h max_pixels)" for p
    using oversized_alone [OF that] by (simp add: port_load_def sum_list_triv)
  show ?thesis
    using 1 2 3 by blast
qed

theorem oversized_panel_fresh_port_witness:
  "(400::int) < 500 \<and>
   (0::int) \<le> current_port_pixels \<lparr>current_port = 2, current_port_pixels = 500, topology_data = []\<rparr> \<and>
   (400::int) < 500 * 1 \<and> (0::int) \<le> 500 * 1 \<and>
   current_port (check_capacity 500 400 \<lparr>current_port = 2, current_port_pixels = 500, topology_data = []\<rparr>) = 3 \<and>
   current_port_pixels (check_capacity 500 400 \<lparr>current_port = 2, current_port_pixels = 500, topology_data = []\<rparr>) = 0 \<and>
   current_port_pixels (assign_panel 500 400 1 0 \<lparr>current_port = 2, current_port_pixels = 500, topology_data = []\<rparr>) = 500 \<and>
   3 \<in> port ` set (generate_topology 2 1 500 1 400) \<and>
   length (panels_on (generate_topology 2 1 500 1 400) 3) = 1 \<and>
   port_load (500 * 1) (generate_topology 2 1 500 1 400) 3 = 500 * 1"
proof -
  let ?s = "\<lparr>current_port = 2, current_port_pixels = 500, topology_data = []\<rparr>"
  have a: "(400::int) < 500" and b: "0 \<le> current_port_pixels ?s"
    and c: "(400::int) < 500 * 1" and d: "(0::int) \<le> 500 * 1"
    by simp_all
  have mem: "3 \<in> port ` set (generate_topology 2 1 500 1 400)"
    by code_simp
  note t = oversized_panel_fresh_port [of 400 500 ?s 1 0 500 1 2 1]
  from t a b have step:
    "current_port (check_capacity 500 400 ?s) = current_port ?s + 1
     \<and> current_port_pixels (check_capacity 500 400 ?s) = 0
     \<and> current_port_pixels (assign_panel 500 400 1 0 ?s) = 500"
    by blast
  from t c d mem have alone:
    "length (panels_on (generate_topology 2 1 500 1 400) 3) = 1
     \<and> port_load (500 * 1) (generate_topology 2 1 500 1 400) 3 = 500 * 1"
    by blast
  from step have "current_port (check_capacity 500 400 ?s) = 3" by simp
  with step alone a b c d mem show ?thesis by blast
qed

text \<open>
  Claim C1 as stated fails: for the grid of one panel with 500 pixels and capacity 400 the
  result is the single row below, on port 2 and not on port 1, and the whole output
  consists of that row and of the usage row below, without a \<^verbatim>\<open>SinglePanelOverflow\<close>
  flag.
\<close>

theorem single_panel_overflow_counterexample:
  "generate_topology 1 1 500 1 400 = [\<lparr>panel_x = 0, panel_y = 0, port = 2, panel_id = ''1-1''\<rparr>]
   \<and> port_counts (generate_topology 1 1 500 1 400) 500 1 400
       = Inr [\<lparr>usage_port = 2, panels_count = 1, pixel_load = 500, utilization = Some 125\<rparr>]"
  by code_simp

section \<open>Port numbering\<close>

lemma sorted_ports_from: "sorted (ports_from pp m p l n)"
proof (induction n arbitrary: p l)
  case 0
  show ?case by simp
next
  case (Suc n)
  have "p + 1 \<le> q" if "q \<in> set (ports_from pp m (p + 1) pp n)" for q
    using ports_from_ge [OF that] .
  moreover have "p \<le> q" if "q \<in> set (ports_from pp m p (l + pp) n)" for q
    using ports_from_ge [OF that] .
  ultimately show ?case using Suc.IH by auto
qed

lemma ports_nondecreasing: "sorted (map port (generate_topology w h rw rh m))"
  by (simp add: generate_topology_ports sorted_ports_from)

lemma blocks_interval:
  assumes "0 < k" and "0 < n"
  shows "(\<lambda>i. 1 + int (i div k)) ` {0..<n} = {1..1 + int ((n - 1) div k)}"
proof (rule set_eqI, rule iffI)
  fix y
  assume "y \<in> (\<lambda>i. 1 + int (i div k)) ` {0..<n}"
  then obtain i where "i < n" and "y = 1 + int (i div k)" by auto
  then show "y \<in> {1..1 + int ((n - 1) div k)}"
    by (simp add: div_le_mono)
next
  fix y
  assume y: "y \<in> {1..1 + int ((n - 1) div k)}"
  define d where "d = nat (y - 1)"
  have "1 \<le> y" and "y \<le> 1 + int ((n - 1) div k)" using y by simp_all
  then have d: "d \<le> (n - 1) div k" and yd: "y = 1 + int d"
    unfolding d_def by linarith+
  have "d * k \<le> (n - 1) div k * k" using d by (rule mult_le_mono1)
  also have "\<dots> \<le> n - 1" by (rule div_times_less_eq_dividend)
  finally have "d * k < n" using assms(2) by simp
  moreover have "d * k div k = d" using assms(1) by simp
  ultimately show "y \<in> (\<lambda>i. 1 + int (i div k)) ` {0..<n}"
    unfolding yd by (intro image_eqI [where x = "d * k"]) simp_all
qed

text \<open>
  When the pixel count of a panel is positive and at most the capacity, the port numbers
  of a non-empty grid are non-decreasing, start at 1 and are exactly the numbers from 1 to
  the highest port.
\<close>

lemma ports_contiguous_when_fitting:
  assumes "0 < rw * rh" and "rw * rh \<le> m" and "1 \<le> w" and "1 \<le> h"
  shows "sorted (map port (generate_topology w h rw rh m))
       \<and> hd (map port (generate_topology w h rw rh m)) = 1
       \<and> port ` set (generate_topology w h rw rh m)
           = {1..Max (port ` set (generate_topology w h rw rh m))}"
proof -
  define k where "k = nat (m div (rw * rh))"
  define n where "n = length (visit_order w h)"
  have "1 \<le> m div (rw * rh)"
    using mult_le_iff_le_div [OF assms(1), of 1 m] assms(2) by simp
  then have k: "0 < k" by (simp add: k_def)
  have "n = nat w * nat h"
    by (simp add: n_def visit_order_columns length_columns)
  then have n: "0 < n" using assms(3,4) by simp
  have ports: "map port (generate_topology w h rw rh m) = map (\<lambda>i. 1 + int (i div k)) [0..<n]"
    unfolding k_def n_def by (rule generate_topology_ports_closed [OF assms(1,2)])
  have "port ` set (generate_topology w h rw rh m) = set (map port (generate_topology w h rw rh m))"
    by simp
  also have "\<dots> = (\<lambda>i. 1 + int (i div k)) ` {0..<n}" unfolding ports by simp
  finally have used: "port ` set (generate_topology w h rw rh m) = (\<lambda>i. 1 + int (i div k)) ` {0..<n}" .
  have "[0..<n] = 0 # [1..<n]" using n by (simp add: upt_conv_Cons)
  then have first: "hd (map port (generate_topology w h rw rh m)) = 1"
    unfolding ports using k by simp
  have "Max (port ` set (generate_topology w h rw rh m)) = 1 + int ((n - 1) div k)"
    unfolding used by (rule Max_blocks [OF n])
  then have "port ` set (generate_topology w h rw rh m)
      = {1..Max (port ` set (generate_topology w h rw rh m))}"
    using used blocks_interval [OF k n] by simp
  then show ?thesis using ports_nondecreasing first by blast
qed

text \<open>
  Claim C2 requires, for every positive pixel count and capacity, that the first port is
  1 and that the ports used are exactly \<open>1, \<dots>, maxPort\<close>. With two panels of 1000 by 1000
  pixels and the capacity of the script, the capacity check fires on the still empty port
  1: the ports are 2 and 3, port 1 is never used, and the required number of ports is
  reported as 3 for two panels.
\<close>

theorem oversized_panel_skips_port_1:
  "map port (generate_topology 2 1 1000 1000 PIXEL_CAPACITY_PER_PORT) = [2, 3]
   \<and> num_ports (generate_topology 2 1 1000 1000 PIXEL_CAPACITY_PER_PORT) = Inr 3
   \<and> port_counts (generate_topology 2 1 1000 1000 PIXEL_CAPACITY_PER_PORT)
         1000 1000 PIXEL_CAPACITY_PER_PORT
       = Inr [\<lparr>usage_port = 2, panels_count = 1, pixel_load = 1000000, utilization = Some (769 / 5)\<rparr>,
              \<lparr>usage_port = 3, panels_count = 1, pixel_load = 1000000, utilization = Some (769 / 5)\<rparr>]"
  by code_simp

section \<open>Reporting of panels above the capacity\<close>

text \<open>
  Claim C3, as the code has it. Whenever the pixel count of a panel alone exceeds the
  (positive) capacity and is below \<open>2 ^ 63\<close>, on a grid of at least one column and one
  row the computation completes with one row per panel, and the usage table has one row
  per panel, each with 1 panel, a pixel load equal to the panel's pixel count, which is
  above the capacity, and a utilization of at least 100. The result has no explicit
  overflow indication: the condition can only be read off the pixel load. From \<open>2 ^ 63\<close>
  on, the pixel count does not fit the 64-bit column of the usage table, and the
  aggregation raises \<^verbatim>\<open>OverflowError\<close>.
\<close>

theorem overflow_completes_unflagged:
  assumes "1 \<le> panels_w" and "1 \<le> panels_h"
    and "0 < max_pixels" and "max_pixels < panel_res_w * panel_res_h"
    and "panel_res_w * panel_res_h < 2 ^ 63"
  shows "int (length (generate_topology panels_w panels_h panel_res_w panel_res_h max_pixels))
           = panels_w * panels_h
       \<and> (\<exists>us. port_counts (generate_topology panels_w panels_h panel_res_w panel_res_h max_pixels)
                   panel_res_w panel_res_h max_pixels = Inr us
            \<and> map usage_port us
                = sorted_list_of_set (port ` set (generate_topology panels_w panels_h panel_res_w panel_res_h max_pixels))
            \<and> int (length us) = panels_w * panels_h
            \<and> (\<forall>u \<in> set us. panels_count u = 1
                  \<and> pixel_load u = panel_res_w * panel_res_h
                  \<and> max_pixels < pixel_load u
                  \<and> (\<exists>q. utilization u = Some q \<and> 100 \<le> q)))"
proof -
  define df where "df = generate_topology panels_w panels_h panel_res_w panel_res_h max_pixels"
  define pp where "pp = panel_res_w * panel_res_h"
  define c where "c = binary64 (of_int max_pixels)"
  define us where "us = map (usage_row panel_res_w panel_res_h c) (group_sizes (map port df))"
  have big: "max_pixels < pp" and nonneg: "0 \<le> pp" and ppr: "in_int64 pp" and mr: "in_int64 max_pixels"
    using assms(3,4,5) by (simp_all add: pp_def in_int64_def)
  have len: "int (length df) = panels_w * panels_h"
    using assms(1,2) by (simp add: df_def length_generate_topology)
  have "df \<noteq> []"
    unfolding df_def by (rule generate_topology_nonempty [OF assms(1,2)])
  then have col: "port_column df = Inr (map port df)"
    by (simp add: port_column_def)
  have cap: "float_of_int max_pixels = Inr c"
    unfolding c_def using mr by (rule float_of_int_int64)
  have cnz: "c \<noteq> 0"
    unfolding c_def using assms(3) by (intro binary64_int_nonzero) simp
  have 1: "port_counts df panel_res_w panel_res_h max_pixels = Inr us"
    using ppr by (simp add: port_counts_def col cap us_def pp_def)
  have "map usage_port us = map fst (group_sizes (map port df))"
    by (simp add: us_def usage_row_def Let_def comp_def)
  then have 2: "map usage_port us = sorted_list_of_set (port ` set df)"
    by (simp add: map_fst_group_sizes)
  have dist: "distinct (map port df)"
    unfolding df_def by (rule oversized_ports_distinct) (use big nonneg in \<open>simp_all add: pp_def\<close>)
  have "length us = length (sorted_list_of_set (set (map port df)))"
    by (simp add: us_def group_sizes_def)
  also have "\<dots> = card (set (map port df))" by simp
  also have "\<dots> = length df" using distinct_card [OF dist] by simp
  finally have 3: "int (length us) = panels_w * panels_h" using len by simp
  have 4: "panels_count u = 1 \<and> pixel_load u = panel_res_w * panel_res_h
          \<and> max_pixels < pixel_load u \<and> (\<exists>q. utilization u = Some q \<and> 100 \<le> q)"
    if "u \<in> set us" for u
  proof -
    from that obtain g where g: "g \<in> set (group_sizes (map port df))"
      and u: "u = usage_row panel_res_w panel_res_h c g"
      by (auto simp: us_def)
    have "snd g = int (count_list (map port df) (fst g))" and "fst g \<in> set (map port df)"
      using group_sizes_count [OF g] by simp_all
    then have one: "snd g = 1"
      using count_list_distinct [OF dist] by simp
    have load: "pixel_load u = pp"
      using int64_wrap_id [OF ppr] by (simp add: u usage_row_def Let_def one pp_def)
    have "100 \<le> np_round1 (binary64 (binary64 (binary64 (of_int pp) / binary64 (of_int max_pixels)) * 100))"
      using assms(3) big by (intro utilization_at_least_100) simp_all
    moreover have "utilization u
        = Some (np_round1 (binary64 (binary64 (binary64 (of_int pp) / binary64 (of_int max_pixels)) * 100)))"
      using cnz load by (simp add: u usage_row_def Let_def utilization_percent_def c_def)
    ultimately have "\<exists>q. utilization u = Some q \<and> 100 \<le> q" by simp
    moreover have "panels_count u = 1"
      by (simp add: u usage_row_def Let_def one)
    ultimately show ?thesis
      using big load by (simp add: pp_def)
  qed
  show ?thesis
    unfolding df_def [symmetric] using len 1 2 3 4 by blast
qed

theorem overflow_completes_unflagged_witness:
  "(1::int) \<le> 2 \<and> (1::int) \<le> 1 \<and> (0::int) < 400 \<and> (400::int) < 500 * 1 \<and> (500::int) * 1 < 2 ^ 63 \<and>
   int (length (generate_topology 2 1 500 1 400)) = 2 * 1 \<and>
   (\<exists>us. port_counts (generate_topology 2 1 500 1 400) 500 1 400 = Inr us
      \<and> int (length us) = 2 * 1
      \<and> panels_count (hd us) = 1 \<and> pixel_load (hd us) = 500 * 1 \<and> 400 < pixel_load (hd us))"
proof -
  have a: "(1::int) \<le> 2" and b: "(1::int) \<le> 1" and c: "(0::int) < 400" and d: "(400::int) < 500 * 1"
    and e: "(500::int) * 1 < 2 ^ 63"
    by simp_all
  from overflow_completes_unflagged [OF a b c d e]
  obtain us where len: "int (length (generate_topology 2 1 500 1 400)) = 2 * 1"
    and us: "port_counts (generate_topology 2 1 500 1 400) 500 1 400 = Inr us"
    and n: "int (length us) = 2 * 1"
    and each: "\<forall>u \<in> set us. panels_count u = 1 \<and> pixel_load u = 500 * 1 \<and> 400 < pixel_load u
                 \<and> (\<exists>q. utilization u = Some q \<and> 100 \<le> q)"
    by blast
  from n have "us \<noteq> []" by auto
  then have "hd us \<in> set us" by simp
  with each have "panels_count (hd us) = 1 \<and> pixel_load (hd us) = 500 * 1 \<and> 400 < pixel_load (hd us)"
    by blast
  with a b c d e len us n show ?thesis by blast
qed

text \<open>
  Claim C3 as stated fails: with one panel of 10001 pixels and capacity 10000 the complete
  output is the row, the port count and the usage row below. There is no
  \<^verbatim>\<open>SinglePanelOverflow\<close> indication, and the utilization is shown as 100.0.
\<close>

theorem overflow_unflagged_counterexample:
  "generate_topology 1 1 10001 1 10000 = [\<lparr>panel_x = 0, panel_y = 0, port = 2, panel_id = ''1-1''\<rparr>]
   \<and> num_ports (generate_topology 1 1 10001 1 10000) = Inr 2
   \<and> port_counts (generate_topology 1 1 10001 1 10000) 10001 1 10000
       = Inr [\<lparr>usage_port = 2, panels_count = 1, pixel_load = 10001, utilization = Some 100\<rparr>]"
  by code_simp

section \<open>Inputs outside the assumed range\<close>

text \<open>
  Claim C4, as the code has it. \<^verbatim>\<open>generate_topology\<close> validates nothing. If the width or the
  height is at most 0, it returns the empty table; if the capacity is at most 0 (grid of at
  least one column and one row, positive pixel count), it returns a row for every panel
  in the serpentine order, each panel on a port of its own.
\<close>

theorem no_validation:
  "(panels_w \<le> 0 \<or> panels_h \<le> 0 \<longrightarrow>
      generate_topology panels_w panels_h panel_res_w panel_res_h max_pixels = [])
   \<and> (1 \<le> panels_w \<and> 1 \<le> panels_h \<and> max_pixels \<le> 0 \<and> 0 < panel_res_w * panel_res_h \<longrightarrow>
        int (length (generate_topology panels_w panels_h panel_res_w panel_res_h max_pixels))
          = panels_w * panels_h
      \<and> coords (generate_topology panels_w panels_h panel_res_w panel_res_h max_pixels)
          = visit_order panels_w panels_h
      \<and> distinct (map port (generate_topology panels_w panels_h panel_res_w panel_res_h max_pixels)))"
proof -
  have 1: "generate_topology panels_w panels_h panel_res_w panel_res_h max_pixels = []"
    if "panels_w \<le> 0 \<or> panels_h \<le> 0"
    using that length_generate_topology [of panels_w panels_h panel_res_w panel_res_h max_pixels]
    by auto
  have 2: "int (length (generate_topology panels_w panels_h panel_res_w panel_res_h max_pixels))
          = panels_w * panels_h
      \<and> coords (generate_topology panels_w panels_h panel_res_w panel_res_h max_pixels)
          = visit_order panels_w panels_h
      \<and> distinct (map port (generate_topology panels_w panels_h panel_res_w panel_res_h max_pixels))"
    if "1 \<le> panels_w" and "1 \<le> panels_h" and "max_pixels \<le> 0" and "0 < panel_res_w * panel_res_h"
  proof -
    have "max_pixels < panel_res_w * panel_res_h" and "0 \<le> panel_res_w * panel_res_h"
      using that(3,4) by simp_all
    then have "distinct (map port (generate_topology panels_w panels_h panel_res_w panel_res_h max_pixels))"
      by (rule oversized_ports_distinct)
    moreover have "int (length (generate_topology panels_w panels_h panel_res_w panel_res_h max_pixels))
          = panels_w * panels_h"
      using that(1,2) by (simp add: length_generate_topology)
    moreover have "coords (generate_topology panels_w panels_h panel_res_w panel_res_h max_pixels)
          = visit_order panels_w panels_h"
      by (simp add: coords_def generate_topology_rows rows_coords)
    ultimately show ?thesis by blast
  qed
  show ?thesis using 1 2 by blast
qed

theorem no_validation_witness:
  "((0::int) \<le> 0 \<or> (3::int) \<le> 0) \<and> generate_topology 0 3 10 10 250 = [] \<and>
   (1::int) \<le> 2 \<and> (1::int) \<le> 1 \<and> (0::int) \<le> 0 \<and> (0::int) < 10 * 10 \<and>
   int (length (generate_topology 2 1 10 10 0)) = 2 * 1 \<and>
   distinct (map port (generate_topology 2 1 10 10 0))"
  using no_validation [of 0 3 10 10 250] no_validation [of 2 1 10 10 0]
  by simp

text \<open>
  Claim C4 as stated fails: width 0 is not rejected but answered with the empty table,
  and capacity 0 is not rejected but answered with a complete assignment.
\<close>

theorem no_validation_counterexample:
  "generate_topology 0 3 10 10 250 = []
   \<and> generate_topology 2 1 10 10 0 =
        [\<lparr>panel_x = 0, panel_y = 0, port = 2, panel_id = ''1-1''\<rparr>,
         \<lparr>panel_x = 1, panel_y = 0, port = 3, panel_id = ''2-1''\<rparr>]"
  by code_simp

section \<open>The port usage table and the required number of ports\<close>




end
